theory Spec2Isabelle
  imports Main "HOL-Library.Sublist"
begin

section \<open>Leak Audit: the object model\<close>

text \<open>
  The plugin inspects the live object graph of the interpreter it runs in. An object is
  known to the plugin only through its identity (\<open>id(o)\<close>) and through the handful of
  operations the plugin applies to it: \<open>isinstance\<close> tests, \<open>type(o).__name__\<close>,
  \<open>o.__class__.__module__\<close>, \<open>o.__class__.__name__\<close>, \<open>o.name\<close>, \<open>repr(o)\<close>,
  \<open>len(o)\<close> and, for dictionaries, key lookups. Each operation that can raise in Python
  returns a sum here, \<open>Inl\<close> carrying the exception.
\<close>

type_synonym oid = nat

datatype exn = AttributeError | KeyError | TypeError | ReferenceError | OtherException

text \<open>
  Values stored in a dictionary or returned by an attribute: \<open>None\<close>, a \<open>str\<close>, or any
  other object. Of another object the plugin takes the truth value (\<open>if modname:\<close>) and
  the \<open>repr\<close> (\<open>{modname!r}\<close>); either may raise, so \<open>POther\<close> carries the outcome of the
  truth test and the exception \<open>repr\<close> raises, if it raises. Such an object never equals
  a string.
\<close>

datatype pyval = PNone | PStr string | POther "exn + bool" "exn option"

fun truthy :: "pyval \<Rightarrow> exn + bool" where
  "truthy PNone = Inr False"
| "truthy (PStr s) = Inr (s \<noteq> [])"
| "truthy (POther t r) = t"

fun repr_raises :: "pyval \<Rightarrow> exn option" where
  "repr_raises PNone = None"
| "repr_raises (PStr s) = None"
| "repr_raises (POther t r) = r"

record pyobj =
  type_name :: string
  cls_module :: "exn + string"
  cls_name :: "exn + string"
  is_traceback :: bool
  is_frame :: bool
  is_dict :: bool
  is_seq :: bool
  is_thread :: bool
  is_console :: "exn + bool"
  is_completer :: "exn + bool"
  is_binaryview :: "exn + bool"
  name_attr :: "exn + pyval"
  repr_r :: "exn + string"
  len_r :: "exn + nat"
  dict_items :: "(string \<times> pyval) list"

text \<open>
  \<open>type_name\<close> is \<open>type(o).__name__\<close>; \<open>is_seq\<close> is
  \<open>isinstance(o, (list, tuple, set, frozenset))\<close>; \<open>is_console\<close> and \<open>is_completer\<close> are
  the \<open>isinstance\<close> tests against \<open>code.InteractiveConsole\<close> and \<open>rlcompleter.Completer\<close>,
  which the source wraps in \<open>try\<close>; \<open>is_binaryview\<close> is the test against \<open>BinaryView\<close>,
  which it does not wrap; \<open>dict_items\<close> are the string-keyed entries of a dictionary, in
  insertion order, and \<open>len_r\<close> is \<open>len(o)\<close>, which counts every entry.
\<close>

text \<open>The optional modules of the source: \<open>_threading\<close>, \<open>_code_mod\<close>, \<open>_rlc_mod\<close>.\<close>

record mods =
  has_threading :: bool
  has_code :: bool
  has_rlcompleter :: bool

text \<open>Python's \<open>d.get(k, default)\<close>, \<open>k in d\<close> and \<open>getattr(o, name, default)\<close>.\<close>

definition dict_get :: "(string \<times> pyval) list \<Rightarrow> string \<Rightarrow> pyval \<Rightarrow> pyval" where
  "dict_get d k dflt = (case map_of d k of None \<Rightarrow> dflt | Some v \<Rightarrow> v)"

definition dict_has :: "(string \<times> pyval) list \<Rightarrow> string \<Rightarrow> bool" where
  "dict_has d k = (case map_of d k of None \<Rightarrow> False | Some v \<Rightarrow> True)"

fun getattr_default :: "exn + pyval \<Rightarrow> pyval \<Rightarrow> exn + pyval" where
  "getattr_default (Inl AttributeError) dflt = Inr dflt"
| "getattr_default (Inl e) dflt = Inl e"
| "getattr_default (Inr v) dflt = Inr v"

section \<open>The noise classifier\<close>

text \<open>\<open>_typename\<close>: module and class name joined by a dot, \<open>type(o).__name__\<close> on failure.\<close>

definition typename :: "pyobj \<Rightarrow> string" where
  "typename obj =
     (case cls_module obj of
        Inl e \<Rightarrow> type_name obj
      | Inr m \<Rightarrow> (case cls_name obj of
                   Inl e \<Rightarrow> type_name obj
                 | Inr n \<Rightarrow> m @ ''.'' @ n))"

definition is_interpreter_thread :: "mods \<Rightarrow> pyobj \<Rightarrow> exn + bool" where
  "is_interpreter_thread m obj =
     (if has_threading m \<and> is_thread obj then
        (case cls_name obj of
           Inl e \<Rightarrow> Inl e
         | Inr cname \<Rightarrow>
             if sublist ''InterpreterThread'' cname \<or> sublist ''Interpreter'' cname
             then Inr True
             else (case getattr_default (name_attr obj) PNone of
                     Inl e \<Rightarrow> Inl e
                   | Inr (PStr s) \<Rightarrow>
                       if sublist ''Interpreter'' s then Inr True
                       else Inr (sublist ''InterpreterThread'' (typename obj))
                   | Inr v \<Rightarrow> Inr (sublist ''InterpreterThread'' (typename obj))))
      else Inr (sublist ''InterpreterThread'' (typename obj)))"

definition is_interactive_console :: "mods \<Rightarrow> pyobj \<Rightarrow> bool" where
  "is_interactive_console m obj =
     (if has_code m \<and> is_console obj = Inr True then True
      else sublist ''code.InteractiveConsole'' (typename obj))"

definition is_completer_obj :: "mods \<Rightarrow> pyobj \<Rightarrow> bool" where
  "is_completer_obj m obj =
     (if has_rlcompleter m \<and> is_completer obj = Inr True then True
      else sublist ''rlcompleter.Completer'' (typename obj)
           \<or> suffix ''.Completer'' (typename obj))"

definition is_tracebackish :: "pyobj \<Rightarrow> bool" where
  "is_tracebackish obj =
     (if is_traceback obj then True
      else if is_frame obj then True
      else if prefix ''traceback.'' (typename obj)
              \<or> sublist ''TracebackException'' (typename obj)
              \<or> sublist ''StackSummary'' (typename obj) then True
      else if is_dict obj then dict_get (dict_items obj) ''__name__'' PNone = PStr ''traceback''
      else False)"

text \<open>The names whose appearance in a container's \<open>repr\<close> marks it as the tool's own.\<close>

definition own_names :: "string list" where
  "own_names = [''live_bvs'', ''print_referrers'', ''inspect_bv'']"

definition repl_modules :: "pyval list" where
  "repl_modules = [PStr ''__main__'', PStr ''__console__'', PStr ''code'', PStr ''rlcompleter'']"

text \<open>
  The heuristic for the tool's own temporary containers: \<open>repr(ref)\<close> is taken, with no
  handler around it, only for a list, tuple, set or frozenset.
\<close>

definition is_own_container :: "pyobj \<Rightarrow> exn + bool" where
  "is_own_container ref =
     (if is_seq ref then
        (case repr_r ref of
           Inl e \<Rightarrow> Inl e
         | Inr r \<Rightarrow> Inr (list_ex (\<lambda>n. sublist n r) own_names))
      else Inr False)"

definition is_repl_namespace :: "pyobj \<Rightarrow> bool" where
  "is_repl_namespace ref =
     (if is_dict ref
      then dict_get (dict_items ref) ''__name__'' (PStr '''') \<in> set repl_modules
      else False)"

definition is_console_noise :: "mods \<Rightarrow> pyobj \<Rightarrow> exn + bool" where
  "is_console_noise m ref =
     (if is_tracebackish ref then Inr True
      else if is_interactive_console m ref then Inr True
      else if is_completer_obj m ref then Inr True
      else (case is_interpreter_thread m ref of
              Inl e \<Rightarrow> Inl e
            | Inr True \<Rightarrow> Inr True
            | Inr False \<Rightarrow>
                (case is_own_container ref of
                   Inl e \<Rightarrow> Inl e
                 | Inr True \<Rightarrow> Inr True
                 | Inr False \<Rightarrow> Inr (is_repl_namespace ref))))"

section \<open>The runtime's object pool\<close>

text \<open>
  The heap is the interpreter's, not the plugin's. The model fixes one snapshot of it:
  \<open>objs\<close> gives each identity its object, \<open>get_referrers\<close> is \<open>gc.get_referrers\<close> (a list
  of identities in the order the runtime reports them, or the exception it raised),
  \<open>gc_objects\<close> is what \<open>gc.get_objects()\<close> enumerates and \<open>reachable\<close> says which of
  those a full collection keeps.
\<close>

record heap =
  objs :: "oid \<Rightarrow> pyobj"
  get_referrers :: "oid \<Rightarrow> exn + oid list"
  gc_objects :: "oid list"
  reachable :: "oid \<Rightarrow> bool"
  modules :: mods

text \<open>
  What the snapshot leaves out: the heap does not change during one traversal (the
  source re-queries it at every step, and its own frames and lists may appear among
  the referrers; here they appear only if \<open>get_referrers\<close> lists them); identities are
  not reused; \<open>isinstance\<close> against \<open>dict\<close>, the sequence types, \<open>Thread\<close>, frames and
  tracebacks does not raise; dictionary lookups do not raise; only exceptions derived
  from \<open>Exception\<close> occur.
\<close>

text \<open>\<open>gc.collect()\<close>: a full collection drops the unreachable objects from the pool.\<close>

definition gc_collect :: "heap \<Rightarrow> heap" where
  "gc_collect h = h\<lparr>gc_objects := filter (reachable h) (gc_objects h)\<rparr>"

text \<open>
  The list comprehension of \<open>live_bvs\<close>: \<open>isinstance(o, BinaryView)\<close> on every object of
  the pool in turn, with no handler; the first test that raises ends the scan.
\<close>

fun scan_views :: "(oid \<Rightarrow> pyobj) \<Rightarrow> oid list \<Rightarrow> exn + oid list" where
  "scan_views ob [] = Inr []"
| "scan_views ob (x # xs) =
     (case is_binaryview (ob x) of
        Inl e \<Rightarrow> Inl e
      | Inr b \<Rightarrow> (case scan_views ob xs of
                   Inl e \<Rightarrow> Inl e
                 | Inr ys \<Rightarrow> Inr (if b then x # ys else ys)))"

text \<open>\<open>live_bvs\<close>: collect, then scan \<open>gc.get_objects()\<close> for the \<open>BinaryView\<close> instances.\<close>

definition live_bvs :: "heap \<Rightarrow> heap \<times> (exn + oid list)" where
  "live_bvs h = (let h' = gc_collect h in (h', scan_views (objs h') (gc_objects h')))"

section \<open>The referrer query\<close>

definition tool_keys :: "string list" where
  "tool_keys = [''inspect_bv'', ''print_referrers'', ''_iter_referrers_filtered'']"

text \<open>The \<open>for k in (...): if k in ref: break\<close> loop: does the dictionary hold such a key.\<close>

definition has_tool_key :: "pyobj \<Rightarrow> bool" where
  "has_tool_key ref = list_ex (dict_has (dict_items ref)) tool_keys"

text \<open>
  The generator \<open>_iter_referrers_filtered\<close>, consumed by \<open>list(...)\<close>: an exception raised
  while classifying any referrer loses the whole list.
\<close>

fun filter_refs :: "mods \<Rightarrow> (oid \<Rightarrow> pyobj) \<Rightarrow> oid list \<Rightarrow> exn + oid list" where
  "filter_refs m ob [] = Inr []"
| "filter_refs m ob (r # rs) =
     (case is_console_noise m (ob r) of
        Inl e \<Rightarrow> Inl e
      | Inr True \<Rightarrow> filter_refs m ob rs
      | Inr False \<Rightarrow>
          if is_dict (ob r) \<and> has_tool_key (ob r) then filter_refs m ob rs
          else (case filter_refs m ob rs of
                  Inl e \<Rightarrow> Inl e
                | Inr ys \<Rightarrow> Inr (r # ys)))"

definition iter_referrers_filtered :: "heap \<Rightarrow> oid \<Rightarrow> exn + oid list" where
  "iter_referrers_filtered h node =
     (case get_referrers h node of
        Inl e \<Rightarrow> Inl e
      | Inr rs \<Rightarrow> filter_refs (modules h) (objs h) rs)"

section \<open>The backreference walker\<close>

text \<open>
  What \<open>walk\<close> passes to \<open>log_info\<close>, kept structured: the indentation, and the values the
  f-string interpolates. An entry line also records which referrer it renders.
\<close>

datatype extra = ExModule pyval | ExDictLen nat | ExLen nat | ExThread pyval

datatype line =
    CycleLine string string oid
  | LeafLine string
  | TruncLine string nat int
  | EntryLine string oid string "extra list" string

text \<open>\<open>_safe_preview\<close> with its default \<open>maxlen=120\<close>.\<close>

definition safe_preview :: "pyobj \<Rightarrow> string" where
  "safe_preview obj =
     (let r = (case repr_r obj of
                 Inl e \<Rightarrow> ''<unreprable '' @ type_name obj @ ''>''
               | Inr s \<Rightarrow> s)
      in if length r > 120 then take 117 r @ ''...'' else r)"

text \<open>
  The \<open>extra\<close> list of one entry (lines 218 to 233). The f-strings take \<open>repr\<close> of the
  module name and of the thread name and the dictionary branch tests \<open>if modname:\<close> and
  takes \<open>len(ref)\<close>, all without a handler, so each of them can end the traversal; only
  \<open>len\<close> of a sequence is guarded. An extra records the value whose \<open>repr\<close> is printed.
\<close>

definition hint_of :: "(pyval \<Rightarrow> extra) \<Rightarrow> pyval \<Rightarrow> exn + extra list" where
  "hint_of mk v = (case repr_raises v of Some e \<Rightarrow> Inl e | None \<Rightarrow> Inr [mk v])"

definition entry_extras :: "mods \<Rightarrow> pyobj \<Rightarrow> exn + extra list" where
  "entry_extras m ref =
     (if is_dict ref then
        (let modname = dict_get (dict_items ref) ''__name__'' PNone
         in case truthy modname of
              Inl e \<Rightarrow> Inl e
            | Inr True \<Rightarrow> hint_of ExModule modname
            | Inr False \<Rightarrow>
                if dict_has (dict_items ref) ''__file__'' \<and> dict_has (dict_items ref) ''__name__''
                then hint_of ExModule modname
                else (case len_r ref of
                        Inl e \<Rightarrow> Inl e
                      | Inr n \<Rightarrow> Inr [ExDictLen n]))
      else if is_seq ref then
        (case len_r ref of Inl e \<Rightarrow> Inr [] | Inr n \<Rightarrow> Inr [ExLen n])
      else if has_threading m \<and> is_thread ref then
        (case getattr_default (name_attr ref) (PStr ''?'') of
           Inl e \<Rightarrow> Inl e
         | Inr v \<Rightarrow> hint_of ExThread v)
      else Inr [])"

text \<open>
  The state \<open>walk\<close> threads through the traversal: the closure variable \<open>seen_ids\<close>, the
  lines passed to \<open>log_info\<close> so far, the calls made to \<open>_iter_referrers_filtered\<close> so far
  (the node of each call, in order), and the exception that is propagating, if any.
\<close>

record wstate =
  seen_ids :: "oid set"
  out :: "line list"
  queried :: "oid list"
  raised :: "exn option"

text \<open>\<open>try: refs = list(_iter_referrers_filtered(node))  except Exception: refs = []\<close>\<close>

definition refs_of :: "heap \<Rightarrow> oid \<Rightarrow> oid list" where
  "refs_of h node = (case iter_referrers_filtered h node of Inl e \<Rightarrow> [] | Inr rs \<Rightarrow> rs)"

text \<open>The notice logged when \<open>per_node_limit is not None and len(refs) > per_node_limit\<close>.\<close>

definition truncation_notice :: "int option \<Rightarrow> string \<Rightarrow> oid list \<Rightarrow> line list" where
  "truncation_notice lim indent refs =
     (case lim of
        None \<Rightarrow> []
      | Some l \<Rightarrow> if int (length refs) > l then [TruncLine indent (length refs) l] else [])"

text \<open>\<open>limit = len(refs) if per_node_limit is None else min(per_node_limit, len(refs))\<close>\<close>

definition shown :: "int option \<Rightarrow> oid list \<Rightarrow> nat" where
  "shown lim refs =
     (case lim of None \<Rightarrow> length refs | Some l \<Rightarrow> nat (min l (int (length refs))))"

definition log_entry :: "heap \<Rightarrow> string \<Rightarrow> oid \<Rightarrow> extra list \<Rightarrow> wstate \<Rightarrow> wstate" where
  "log_entry h indent ref ex st =
     st\<lparr>out := out st @ [EntryLine indent ref (type_name (objs h ref)) ex
                            (safe_preview (objs h ref))]\<rparr>"

text \<open>
  \<open>walk\<close> and its \<open>for i in range(limit)\<close> loop (\<open>walk_refs\<close>, over the first \<open>limit\<close>
  referrers). A new node is added to \<open>seen_ids\<close> (line 200) and its referrers are
  enumerated (line 203) before anything is logged for it. An exception raised while an
  entry is rendered leaves the loop and every enclosing \<open>walk\<close>.
\<close>

function walk :: "heap \<Rightarrow> int option \<Rightarrow> oid \<Rightarrow> int \<Rightarrow> string \<Rightarrow> wstate \<Rightarrow> wstate"
  and walk_refs :: "heap \<Rightarrow> int option \<Rightarrow> oid list \<Rightarrow> int \<Rightarrow> string \<Rightarrow> wstate \<Rightarrow> wstate"
where
  "walk h lim node depth indent st =
     (if depth < 0 then st
      else if node \<in> seen_ids st
      then st\<lparr>out := out st @ [CycleLine indent (type_name (objs h node)) node]\<rparr>
      else if refs_of h node = []
      then st\<lparr>seen_ids := insert node (seen_ids st), queried := queried st @ [node],
              out := out st @ [LeafLine indent]\<rparr>
      else walk_refs h lim (take (shown lim (refs_of h node)) (refs_of h node)) depth indent
             (st\<lparr>seen_ids := insert node (seen_ids st), queried := queried st @ [node],
                 out := out st @ truncation_notice lim indent (refs_of h node)\<rparr>))"
| "walk_refs h lim [] depth indent st = st"
| "walk_refs h lim (ref # rest) depth indent st =
     (case entry_extras (modules h) (objs h ref) of
        Inl e \<Rightarrow> st\<lparr>raised := Some e\<rparr>
      | Inr ex \<Rightarrow>
          (let st' = walk h lim ref (depth - 1) (indent @ ''  '') (log_entry h indent ref ex st)
           in if raised st' = None then walk_refs h lim rest depth indent st' else st'))"
  by pat_completeness auto
termination
  by (relation "measures
        [\<lambda>x. case x of Inl (h, lim, node, d, ind, st) \<Rightarrow> 2 * nat (d + 1)
                      | Inr (h, lim, refs, d, ind, st) \<Rightarrow> 2 * nat d + 1,
         \<lambda>x. case x of Inl (h, lim, node, d, ind, st) \<Rightarrow> 0
                      | Inr (h, lim, refs, d, ind, st) \<Rightarrow> length refs]") auto

text \<open>\<open>print_referrers\<close>: a fresh \<open>seen_ids\<close>, then \<open>walk(obj, max_depth, "")\<close>.\<close>

definition fresh :: wstate where
  "fresh = \<lparr>seen_ids = {}, out = [], queried = [], raised = None\<rparr>"

definition print_referrers :: "heap \<Rightarrow> oid \<Rightarrow> int \<Rightarrow> int option \<Rightarrow> wstate" where
  "print_referrers h obj max_depth per_node_limit = walk h per_node_limit obj max_depth [] fresh"

section \<open>The reference deletion helper\<close>






definition dict_remove :: "string \<Rightarrow> (string \<times> 'a) list \<Rightarrow> (string \<times> 'a) list" where
  "dict_remove k d = filter (\<lambda>kv. fst kv \<noteq> k) d"








section \<open>Vocabulary for the properties\<close>

text \<open>A referrer the classifier answers \<open>False\<close> for.\<close>

definition clean :: "heap \<Rightarrow> oid \<Rightarrow> bool" where
  "clean h r = (is_console_noise (modules h) (objs h r) = Inr False)"

text \<open>A referrer whose entry line can be built: none of the unguarded steps raises.\<close>

definition renders :: "heap \<Rightarrow> oid \<Rightarrow> bool" where
  "renders h r = (\<not> isl (entry_extras (modules h) (objs h r)))"

fun line_indent :: "line \<Rightarrow> string" where
  "line_indent (CycleLine ind t n) = ind"
| "line_indent (LeafLine ind) = ind"
| "line_indent (TruncLine ind n l) = ind"
| "line_indent (EntryLine ind r lab ex pv) = ind"

fun is_entry :: "line \<Rightarrow> bool" where
  "is_entry (EntryLine ind r lab ex pv) = True"
| "is_entry l = False"

text \<open>
  The objects a stretch of output shows \<open>walk\<close> entering, in order: those of the entry
  lines above the last level. \<open>k\<close> is twice the depth of the traversal; an entry line
  indented by \<open>k\<close> characters is logged with no depth left, and the call on its object
  returns at once.
\<close>

fun entered :: "nat \<Rightarrow> line list \<Rightarrow> oid list" where
  "entered k [] = []"
| "entered k (EntryLine ind r lab ex pv # ls) =
     (if length ind + 2 \<le> k then r # entered k ls else entered k ls)"
| "entered k (CycleLine ind t n # ls) = entered k ls"
| "entered k (LeafLine ind # ls) = entered k ls"
| "entered k (TruncLine ind n l # ls) = entered k ls"

text \<open>The objects the cycle markers of a stretch of output name.\<close>

fun cycle_nodes :: "line list \<Rightarrow> oid list" where
  "cycle_nodes [] = []"
| "cycle_nodes (CycleLine ind t n # ls) = n # cycle_nodes ls"
| "cycle_nodes (EntryLine ind r lab ex pv # ls) = cycle_nodes ls"
| "cycle_nodes (LeafLine ind # ls) = cycle_nodes ls"
| "cycle_nodes (TruncLine ind n l # ls) = cycle_nodes ls"

text \<open>The object a line shows as a node of the tree, if it shows one.\<close>

fun line_node :: "line \<Rightarrow> oid option" where
  "line_node (CycleLine ind t n) = Some n"
| "line_node (EntryLine ind r lab ex pv) = Some r"
| "line_node l = None"

definition node_clean :: "heap \<Rightarrow> line \<Rightarrow> bool" where
  "node_clean h l = (case line_node l of None \<Rightarrow> True | Some r \<Rightarrow> clean h r)"

text \<open>A line indented at least as far as \<open>indent\<close>.\<close>

definition deeper :: "string \<Rightarrow> line \<Rightarrow> bool" where
  "deeper indent l = (length indent \<le> length (line_indent l))"

text \<open>
  The line \<open>walk\<close> logs for one referrer at a given indentation, when the referrer
  renders (otherwise no line is logged for it).
\<close>

definition render_entry :: "heap \<Rightarrow> string \<Rightarrow> oid \<Rightarrow> line" where
  "render_entry h indent ref =
     EntryLine indent ref (type_name (objs h ref))
       (case entry_extras (modules h) (objs h ref) of Inl e \<Rightarrow> [] | Inr ex \<Rightarrow> ex)
       (safe_preview (objs h ref))"

text \<open>The children of a node logged at \<open>indent\<close>: the entry lines at exactly that indentation.\<close>

definition child_lines :: "string \<Rightarrow> line list \<Rightarrow> line list" where
  "child_lines indent ls = filter (\<lambda>l. is_entry l \<and> line_indent l = indent) ls"

text \<open>
  The invariant of the call trace: no node was enumerated twice, and the nodes enumerated
  are exactly the nodes in \<open>seen_ids\<close>.
\<close>

definition queried_once :: "wstate \<Rightarrow> bool" where
  "queried_once st = (distinct (queried st) \<and> set (queried st) = seen_ids st)"

text \<open>What the two filters of the referrer query keep, as one predicate.\<close>

definition kept :: "heap \<Rightarrow> oid \<Rightarrow> bool" where
  "kept h r = (clean h r \<and> (if is_dict (objs h r) then \<not> has_tool_key (objs h r) else True))"

text \<open>
  The referrer query as the specification words it, for comparison with
  \<open>iter_referrers_filtered\<close>: after the noise filter, the secondary filter drops a mapping
  exactly when it is the local bindings of the calling frame. \<open>caller_locals\<close> is the
  identity of that mapping, when the frame has one.
\<close>

definition spec_query_referrers :: "oid option \<Rightarrow> heap \<Rightarrow> oid list \<Rightarrow> oid list" where
  "spec_query_referrers caller_locals h rs =
     filter (\<lambda>r. clean h r \<and> (if is_dict (objs h r) then caller_locals \<noteq> Some r else True)) rs"

section \<open>Sample objects and heaps\<close>

definition plain_instance :: "string \<Rightarrow> string \<Rightarrow> pyobj" where
  "plain_instance md nm =
     \<lparr>type_name = nm, cls_module = Inr md, cls_name = Inr nm,
      is_traceback = False, is_frame = False, is_dict = False, is_seq = False,
      is_thread = False, is_console = Inr False, is_completer = Inr False,
      is_binaryview = Inr False, name_attr = Inl AttributeError,
      repr_r = Inr (''<'' @ md @ ''.'' @ nm @ '' object>''), len_r = Inl TypeError,
      dict_items = []\<rparr>"

definition dict_of :: "(string \<times> pyval) list \<Rightarrow> pyobj" where
  "dict_of items =
     (plain_instance ''builtins'' ''dict'')
       \<lparr>is_dict := True, repr_r := Inr ''{...}'', len_r := Inr (length items),
        dict_items := items\<rparr>"

text \<open>A one-element list; \<open>r\<close> is what \<open>repr\<close> of it gives.\<close>

definition list_obj :: "exn + string \<Rightarrow> pyobj" where
  "list_obj r = (plain_instance ''builtins'' ''list'')\<lparr>is_seq := True, repr_r := r, len_r := Inr 1\<rparr>"

definition console_obj :: pyobj where
  "console_obj = (plain_instance ''code'' ''InteractiveConsole'')\<lparr>is_console := Inr True\<rparr>"

definition binaryview_obj :: pyobj where
  "binaryview_obj =
     (plain_instance ''binaryninja.binaryview'' ''BinaryView'')\<lparr>is_binaryview := Inr True\<rparr>"

text \<open>An ordinary object, truthy and with a working \<open>repr\<close>.\<close>

definition some_object :: pyval where
  "some_object = POther (Inr True) None"

text \<open>An object of a class whose \<open>__repr__\<close> raises.\<close>

definition boom :: pyval where
  "boom = POther (Inr True) (Some OtherException)"

text \<open>
  A \<open>weakref.proxy\<close> whose referent is gone: \<open>isinstance(o, BinaryView)\<close> finds that
  the type of the proxy is not a subclass, looks up \<open>o.__class__\<close> through the proxy and
  raises \<open>ReferenceError\<close>.
\<close>

definition dead_proxy :: pyobj where
  "dead_proxy =
     (plain_instance ''weakref'' ''ProxyType'')
       \<lparr>cls_module := Inl ReferenceError, cls_name := Inl ReferenceError,
        is_binaryview := Inl ReferenceError\<rparr>"

definition all_mods :: mods where
  "all_mods = \<lparr>has_threading = True, has_code = True, has_rlcompleter = True\<rparr>"

definition mk_heap :: "(oid \<Rightarrow> pyobj) \<Rightarrow> (oid \<Rightarrow> exn + oid list) \<Rightarrow> heap" where
  "mk_heap ob refs =
     \<lparr>objs = ob, get_referrers = refs, gc_objects = [], reachable = (\<lambda>n. True),
      modules = all_mods\<rparr>"

text \<open>Two objects that refer to each other: A is 0, B is 1.\<close>

definition ring_heap :: heap where
  "ring_heap =
     mk_heap (\<lambda>n. plain_instance ''app'' ''Node'')
       (\<lambda>n. if n = 0 then Inr [1] else if n = 1 then Inr [0] else Inr [])"

text \<open>A view (0) held by three plain objects, which nothing else refers to.\<close>

definition fan_heap :: heap where
  "fan_heap =
     mk_heap (\<lambda>n. if n = 0 then binaryview_obj else plain_instance ''app'' ''Holder'')
       (\<lambda>n. if n = 0 then Inr [1, 2, 3] else Inr [])"

text \<open>
  The same view, but its second holder (1) is a dictionary
  \<open>{'__name__': Boom(), 'bv': view}\<close> whose \<open>__name__\<close> entry has a raising \<open>__repr__\<close>;
  the runtime reports the holders in the order 2, 1, 3.
\<close>

definition hint_heap :: heap where
  "hint_heap =
     mk_heap (\<lambda>n. if n = 0 then binaryview_obj
                   else if n = 1 then dict_of [(''__name__'', boom), (''bv'', some_object)]
                   else plain_instance ''app'' ''Holder'')
       (\<lambda>n. if n = 0 then Inr [2, 1, 3] else Inr [])"

text \<open>A view (0) held only by an interactive console (1).\<close>

definition console_heap :: heap where
  "console_heap =
     mk_heap (\<lambda>n. if n = 0 then binaryview_obj else console_obj)
       (\<lambda>n. if n = 0 then Inr [1] else Inr [])"

text \<open>
  A view (0) held by two objects (1, 2); 1 is referred to by a list (3) whose \<open>repr\<close>
  raises, so enumerating the referrers of 1 fails.
\<close>

definition broken_heap :: heap where
  "broken_heap =
     mk_heap (\<lambda>n. if n = 0 then binaryview_obj
                   else if n = 3 then list_obj (Inl OtherException)
                   else plain_instance ''app'' ''Holder'')
       (\<lambda>n. if n = 0 then Inr [1, 2] else if n = 1 then Inr [3] else Inr [])"

text \<open>
  A view (0) held by the globals of a user module (1) that imported \<open>inspect_bv\<close>, and
  by the globals of another module (2).
\<close>

definition key_heap :: heap where
  "key_heap =
     mk_heap (\<lambda>n. if n = 0 then binaryview_obj
                   else if n = 1 then dict_of [(''__name__'', PStr ''userscript''),
                                               (''inspect_bv'', some_object),
                                               (''bv'', some_object)]
                   else dict_of [(''__name__'', PStr ''cache''), (''bv'', some_object)])
       (\<lambda>n. if n = 0 then Inr [1, 2] else Inr [])"

text \<open>A pool of three reachable objects: a view (0), a dead proxy (1) and a view (2).\<close>

definition proxy_heap :: heap where
  "proxy_heap =
     \<lparr>objs = (\<lambda>n. if n = 1 then dead_proxy else binaryview_obj),
      get_referrers = (\<lambda>n. Inr []), gc_objects = [0, 1, 2],
      reachable = (\<lambda>n. True), modules = all_mods\<rparr>"

text \<open>A pool of four objects: views 0, 2 and 3, of which 3 is unreachable garbage.\<close>

definition pool_heap :: heap where
  "pool_heap =
     \<lparr>objs = (\<lambda>n. if n = 1 then plain_instance ''app'' ''Holder'' else binaryview_obj),
      get_referrers = (\<lambda>n. Inr []), gc_objects = [0, 1, 2, 3],
      reachable = (\<lambda>n. n \<noteq> 3), modules = all_mods\<rparr>"




section \<open>Basic facts\<close>

declare walk.simps [simp del] walk_refs.simps(2) [simp del]

lemma filter_refs_clean:
  "filter_refs m ob rs = Inr ys \<Longrightarrow> r \<in> set ys \<Longrightarrow> is_console_noise m (ob r) = Inr False"
proof (induction rs arbitrary: ys)
  case Nil
  then show ?case by simp
next
  case (Cons a rs)
  then show ?case
    by (auto split: sum.splits bool.splits if_splits)
qed

lemma refs_of_clean: "r \<in> set (refs_of h node) \<Longrightarrow> clean h r"
  by (auto simp: refs_of_def clean_def iter_referrers_filtered_def
           split: sum.splits dest: filter_refs_clean [OF sym])

lemma shown_refs_clean: "list_all (clean h) (take n (refs_of h node))"
  by (auto simp: list_all_iff dest: in_set_takeD refs_of_clean)

lemma render_entry_eq:
  "entry_extras (modules h) (objs h ref) = Inr ex \<Longrightarrow>
   EntryLine indent ref (type_name (objs h ref)) ex (safe_preview (objs h ref))
     = render_entry h indent ref"
  by (simp add: render_entry_def)

lemma renders_extras: "renders h r \<Longrightarrow> \<exists>ex. entry_extras (modules h) (objs h r) = Inr ex"
  by (cases "entry_extras (modules h) (objs h r)") (simp_all add: renders_def)

lemma log_entry_fields [simp]:
  "seen_ids (log_entry h indent ref ex st) = seen_ids st"
  "queried (log_entry h indent ref ex st) = queried st"
  "raised (log_entry h indent ref ex st) = raised st"
  "out (log_entry h indent ref ex st) =
     out st @ [EntryLine indent ref (type_name (objs h ref)) ex (safe_preview (objs h ref))]"
  by (simp_all add: log_entry_def)

lemma entered_append [simp]: "entered k (xs @ ys) = entered k xs @ entered k ys"
  by (induction k xs rule: entered.induct) simp_all

lemma cycle_nodes_append [simp]: "cycle_nodes (xs @ ys) = cycle_nodes xs @ cycle_nodes ys"
  by (induction xs rule: cycle_nodes.induct) simp_all

lemma truncation_notice_shows_nothing [simp]:
  "entered k (truncation_notice lim indent refs) = []"
  "cycle_nodes (truncation_notice lim indent refs) = []"
  by (simp_all add: truncation_notice_def split: option.splits)

subsection \<open>The four ways through \<open>walk\<close>, and the loop's step\<close>

lemma walk_exhausted: "depth < 0 \<Longrightarrow> walk h lim node depth indent st = st"
  by (simp add: walk.simps)

lemma walk_repeat:
  "0 \<le> depth \<Longrightarrow> node \<in> seen_ids st \<Longrightarrow>
   walk h lim node depth indent st
     = st\<lparr>out := out st @ [CycleLine indent (type_name (objs h node)) node]\<rparr>"
  by (simp add: walk.simps)

lemma walk_leaf:
  "0 \<le> depth \<Longrightarrow> node \<notin> seen_ids st \<Longrightarrow> refs_of h node = [] \<Longrightarrow>
   walk h lim node depth indent st
     = st\<lparr>seen_ids := insert node (seen_ids st), queried := queried st @ [node],
          out := out st @ [LeafLine indent]\<rparr>"
  by (simp add: walk.simps)

lemma walk_expand:
  "0 \<le> depth \<Longrightarrow> node \<notin> seen_ids st \<Longrightarrow> refs_of h node \<noteq> [] \<Longrightarrow>
   walk h lim node depth indent st
     = walk_refs h lim (take (shown lim (refs_of h node)) (refs_of h node)) depth indent
         (st\<lparr>seen_ids := insert node (seen_ids st), queried := queried st @ [node],
             out := out st @ truncation_notice lim indent (refs_of h node)\<rparr>)"
  by (simp add: walk.simps)

lemma walk_cases:
  fixes depth :: int and node :: oid and st :: wstate and h :: heap
  obtains (exhausted) "depth < 0"
  | (repeat) "0 \<le> depth" "node \<in> seen_ids st"
  | (leaf) "0 \<le> depth" "node \<notin> seen_ids st" "refs_of h node = []"
  | (expand) "0 \<le> depth" "node \<notin> seen_ids st" "refs_of h node \<noteq> []"
  by (cases "depth < 0"; cases "node \<in> seen_ids st"; cases "refs_of h node = []") auto

lemma walk_refs_step:
  "entry_extras (modules h) (objs h ref) = Inr ex \<Longrightarrow>
   raised (walk h lim ref (depth - 1) (indent @ ''  '') (log_entry h indent ref ex st)) = None \<Longrightarrow>
   walk_refs h lim (ref # rest) depth indent st
     = walk_refs h lim rest depth indent
         (walk h lim ref (depth - 1) (indent @ ''  '') (log_entry h indent ref ex st))"
  by (simp add: walk_refs.simps)

lemma walk_refs_raise:
  "entry_extras (modules h) (objs h ref) = Inl e \<Longrightarrow>
   walk_refs h lim (ref # rest) depth indent st = st\<lparr>raised := Some e\<rparr>"
  by (simp add: walk_refs.simps)

lemma walk_refs_stop:
  "entry_extras (modules h) (objs h ref) = Inr ex \<Longrightarrow>
   raised (walk h lim ref (depth - 1) (indent @ ''  '') (log_entry h indent ref ex st)) \<noteq> None \<Longrightarrow>
   walk_refs h lim (ref # rest) depth indent st
     = walk h lim ref (depth - 1) (indent @ ''  '') (log_entry h indent ref ex st)"
  by (auto simp: walk_refs.simps Let_def)

section \<open>Invariants of the traversal\<close>

text \<open>
  Enumerating referrers never raises out of \<open>walk\<close>; only rendering an entry does. Where
  every object renders, no exception leaves the traversal.
\<close>

lemma walk_keeps_unraised:
  "\<forall>r. renders h r \<Longrightarrow> raised st = None \<Longrightarrow> raised (walk h lim node depth indent st) = None"
  "\<forall>r. renders h r \<Longrightarrow> raised st = None \<Longrightarrow>
     raised (walk_refs h lim refs depth indent st) = None"
proof (induction h lim node depth indent st and h lim refs depth indent st
       rule: walk_walk_refs.induct)
  case (1 h lim node depth indent st)
  show ?case
  proof (cases rule: walk_cases [where depth=depth and node=node and st=st and h=h])
    case exhausted
    then show ?thesis using 1 by (simp add: walk_exhausted)
  next
    case repeat
    then show ?thesis using 1 by (simp add: walk_repeat)
  next
    case leaf
    then show ?thesis using 1 by (simp add: walk_leaf)
  next
    case expand
    then show ?thesis using 1 by (simp add: walk_expand)
  qed
next
  case (2 h lim depth indent st)
  then show ?case by simp
next
  case (3 h lim ref rest depth indent st)
  from "3.prems"(1) have "renders h ref" by simp
  from renders_extras [OF this]
  obtain ex where ex: "entry_extras (modules h) (objs h ref) = Inr ex" ..
  have w: "raised (walk h lim ref (depth - 1) (indent @ ''  '') (log_entry h indent ref ex st)) = None"
    using "3.IH"(1) [OF ex "3.prems"(1)] "3.prems"(2) by simp
  show ?case
    using "3.IH"(2) [OF ex refl w "3.prems"(1) w] by (simp add: walk_refs_step [OF ex w])
qed

text \<open>The nodes whose referrers were enumerated are pairwise distinct and all marked.\<close>

lemma queried_once_update [simp]:
  "queried_once (st\<lparr>out := ls\<rparr>) = queried_once st"
  "queried_once (st\<lparr>raised := e\<rparr>) = queried_once st"
  "queried_once (log_entry h indent ref ex st) = queried_once st"
  by (simp_all add: queried_once_def log_entry_def)

lemma queried_once_mark:
  "queried_once st \<Longrightarrow> node \<notin> seen_ids st \<Longrightarrow>
   queried_once (st\<lparr>seen_ids := insert node (seen_ids st), queried := queried st @ [node]\<rparr>)"
  by (auto simp: queried_once_def)

lemma walk_queried_once:
  "queried_once st \<Longrightarrow> queried_once (walk h lim node depth indent st)"
  "queried_once st \<Longrightarrow> queried_once (walk_refs h lim refs depth indent st)"
proof (induction h lim node depth indent st and h lim refs depth indent st
       rule: walk_walk_refs.induct)
  case (1 h lim node depth indent st)
  show ?case
  proof (cases rule: walk_cases [where depth=depth and node=node and st=st and h=h])
    case exhausted
    then show ?thesis using 1 by (simp add: walk_exhausted)
  next
    case repeat
    then show ?thesis using 1 by (simp add: walk_repeat)
  next
    case leaf
    then show ?thesis using "1.prems" by (simp add: walk_leaf queried_once_mark)
  next
    case expand
    then show ?thesis using 1 by (simp add: walk_expand queried_once_mark)
  qed
next
  case (2 h lim depth indent st)
  then show ?case by simp
next
  case (3 h lim ref rest depth indent st)
  show ?case
  proof (cases "entry_extras (modules h) (objs h ref)")
    case (Inl e)
    then show ?thesis using "3.prems" by (simp add: walk_refs_raise)
  next
    case (Inr ex)
    let ?w = "walk h lim ref (depth - 1) (indent @ ''  '') (log_entry h indent ref ex st)"
    have w: "queried_once ?w" using "3.IH"(1) [OF Inr] "3.prems" by simp
    show ?thesis
    proof (cases "raised ?w = None")
      case True
      then show ?thesis
        using "3.IH"(2) [OF Inr refl True w] by (simp add: walk_refs_step [OF Inr True])
    next
      case False
      then show ?thesis using w by (simp add: walk_refs_stop [OF Inr False])
    qed
  qed
qed

text \<open>Every node a line shows has passed the classifier.\<close>

lemma walk_nodes_clean:
  "list_all (node_clean h) (out st) \<Longrightarrow> node \<notin> seen_ids st \<or> clean h node \<Longrightarrow>
     list_all (node_clean h) (out (walk h lim node depth indent st))"
  "list_all (node_clean h) (out st) \<Longrightarrow> list_all (clean h) refs \<Longrightarrow>
     list_all (node_clean h) (out (walk_refs h lim refs depth indent st))"
proof (induction h lim node depth indent st and h lim refs depth indent st
       rule: walk_walk_refs.induct)
  case (1 h lim node depth indent st)
  show ?case
  proof (cases rule: walk_cases [where depth=depth and node=node and st=st and h=h])
    case exhausted
    then show ?thesis using 1 by (simp add: walk_exhausted)
  next
    case repeat
    then have "node_clean h (CycleLine indent t node)" for t
      using "1.prems"(2) by (simp add: node_clean_def)
    then show ?thesis using repeat "1.prems"(1) by (simp add: walk_repeat)
  next
    case leaf
    have "node_clean h (LeafLine indent)" by (simp add: node_clean_def)
    then show ?thesis using leaf "1.prems"(1) by (simp add: walk_leaf)
  next
    case expand
    have "list_all (node_clean h) (truncation_notice lim indent (refs_of h node))"
      by (simp add: truncation_notice_def node_clean_def split: option.splits)
    then show ?thesis
      using "1.IH" expand "1.prems"(1) by (simp add: walk_expand shown_refs_clean)
  qed
next
  case (2 h lim depth indent st)
  then show ?case by simp
next
  case (3 h lim ref rest depth indent st)
  from "3.prems" have c: "clean h ref" and cs: "list_all (clean h) rest" by simp_all
  show ?case
  proof (cases "entry_extras (modules h) (objs h ref)")
    case (Inl e)
    then show ?thesis using "3.prems" by (simp add: walk_refs_raise)
  next
    case (Inr ex)
    let ?w = "walk h lim ref (depth - 1) (indent @ ''  '') (log_entry h indent ref ex st)"
    have e: "node_clean h (EntryLine indent ref lab ex pv)" for lab pv
      using c by (simp add: node_clean_def)
    have w: "list_all (node_clean h) (out ?w)"
      using "3.IH"(1) [OF Inr] "3.prems"(1) c e by simp
    show ?thesis
    proof (cases "raised ?w = None")
      case True
      then show ?thesis
        using "3.IH"(2) [OF Inr refl True w cs] by (simp add: walk_refs_step [OF Inr True])
    next
      case False
      then show ?thesis using w by (simp add: walk_refs_stop [OF Inr False])
    qed
  qed
qed

text \<open>Lines are only ever appended.\<close>

lemma walk_out_prefix:
  "prefix (out st) (out (walk h lim node depth indent st))"
  "prefix (out st) (out (walk_refs h lim refs depth indent st))"
proof (induction h lim node depth indent st and h lim refs depth indent st
       rule: walk_walk_refs.induct)
  case (1 h lim node depth indent st)
  show ?case
  proof (cases rule: walk_cases [where depth=depth and node=node and st=st and h=h])
    case exhausted
    then show ?thesis by (simp add: walk_exhausted)
  next
    case repeat
    then show ?thesis by (simp add: walk_repeat)
  next
    case leaf
    then show ?thesis by (simp add: walk_leaf)
  next
    case expand
    let ?st = "st\<lparr>seen_ids := insert node (seen_ids st), queried := queried st @ [node],
                   out := out st @ truncation_notice lim indent (refs_of h node)\<rparr>"
    have "prefix (out st) (out ?st)" by simp
    also have "prefix (out ?st)
        (out (walk_refs h lim (take (shown lim (refs_of h node)) (refs_of h node)) depth indent ?st))"
      using "1.IH" expand by simp
    finally show ?thesis using expand by (simp add: walk_expand)
  qed
next
  case (2 h lim depth indent st)
  then show ?case by simp
next
  case (3 h lim ref rest depth indent st)
  show ?case
  proof (cases "entry_extras (modules h) (objs h ref)")
    case (Inl e)
    then show ?thesis by (simp add: walk_refs_raise)
  next
    case (Inr ex)
    let ?e = "log_entry h indent ref ex st"
    let ?w = "walk h lim ref (depth - 1) (indent @ ''  '') ?e"
    have "prefix (out st) (out ?e)" by simp
    also have "prefix (out ?e) (out ?w)" using "3.IH"(1) [OF Inr] .
    finally have w: "prefix (out st) (out ?w)" .
    show ?thesis
    proof (cases "raised ?w = None")
      case True
      have "prefix (out ?w) (out (walk_refs h lim rest depth indent ?w))"
        using "3.IH"(2) [OF Inr refl True] .
      with w have "prefix (out st) (out (walk_refs h lim rest depth indent ?w))"
        by (rule prefix_order.trans)
      then show ?thesis by (simp add: walk_refs_step [OF Inr True])
    next
      case False
      then show ?thesis using w by (simp add: walk_refs_stop [OF Inr False])
    qed
  qed
qed

text \<open>
  The marked objects are the root and the objects of the entry lines above the last
  level. \<open>k\<close> is the indentation at which no depth is left: throughout a traversal the
  indentation plus twice the remaining depth is \<open>k\<close>.
\<close>

lemma walk_entered:
  "int (length indent) + 2 * depth = int k \<Longrightarrow> 0 \<le> depth \<Longrightarrow>
   insert node (seen_ids st) = S \<union> set (entered k (out st)) \<Longrightarrow>
     seen_ids (walk h lim node depth indent st)
       = S \<union> set (entered k (out (walk h lim node depth indent st)))"
  "int (length indent) + 2 * depth = int k \<Longrightarrow>
   seen_ids st = S \<union> set (entered k (out st)) \<Longrightarrow>
     seen_ids (walk_refs h lim refs depth indent st)
       = S \<union> set (entered k (out (walk_refs h lim refs depth indent st)))"
proof (induction h lim node depth indent st and h lim refs depth indent st
       rule: walk_walk_refs.induct)
  case (1 h lim node depth indent st)
  show ?case
  proof (cases rule: walk_cases [where depth=depth and node=node and st=st and h=h])
    case exhausted
    then show ?thesis using "1.prems" by simp
  next
    case repeat
    then have "insert node (seen_ids st) = seen_ids st" by auto
    then show ?thesis using repeat "1.prems"(3) by (simp add: walk_repeat)
  next
    case leaf
    then show ?thesis using "1.prems"(3) by (simp add: walk_leaf)
  next
    case expand
    then show ?thesis
      using "1.IH" "1.prems" by (simp add: walk_expand)
  qed
next
  case (2 h lim depth indent st)
  then show ?case by simp
next
  case (3 h lim ref rest depth indent st)
  show ?case
  proof (cases "entry_extras (modules h) (objs h ref)")
    case (Inl e)
    then show ?thesis using "3.prems" by (simp add: walk_refs_raise)
  next
    case (Inr ex)
    let ?e = "log_entry h indent ref ex st"
    let ?w = "walk h lim ref (depth - 1) (indent @ ''  '') ?e"
    have w: "seen_ids ?w = S \<union> set (entered k (out ?w))"
    proof (cases "1 \<le> depth")
      case True
      have a: "int (length (indent @ ''  '')) + 2 * (depth - 1) = int k"
        using "3.prems"(1) by simp
      have b: "0 \<le> depth - 1" using True by simp
      have "length indent + 2 \<le> k" using "3.prems"(1) True by linarith
      then have c: "insert ref (seen_ids ?e) = S \<union> set (entered k (out ?e))"
        using "3.prems"(2) by simp
      from "3.IH"(1) [OF Inr a b c] show ?thesis .
    next
      case False
      then have "\<not> length indent + 2 \<le> k" using "3.prems"(1) by linarith
      then show ?thesis using False "3.prems"(2) by (simp add: walk_exhausted)
    qed
    show ?thesis
    proof (cases "raised ?w = None")
      case True
      then show ?thesis
        using "3.IH"(2) [OF Inr refl True "3.prems"(1) w]
        by (simp add: walk_refs_step [OF Inr True])
    next
      case False
      then show ?thesis using w by (simp add: walk_refs_stop [OF Inr False])
    qed
  qed
qed

text \<open>
  Each time \<open>walk\<close> enters an object it either enumerates the object's referrers or logs
  a cycle marker naming it. So for every object \<open>x\<close>, the markers naming \<open>x\<close> and the
  enumerations of \<open>x\<close> together are as many as the times \<open>x\<close> was entered (\<open>c\<close> of them
  before the first line).
\<close>

lemma walk_balance:
  "int (length indent) + 2 * depth = int k \<Longrightarrow> 0 \<le> depth \<Longrightarrow>
   count_list (entered k (out st)) x + c
     = count_list (cycle_nodes (out st)) x + count_list (queried st) x
       + (if node = x then 1 else 0) \<Longrightarrow>
     count_list (entered k (out (walk h lim node depth indent st))) x + c
       = count_list (cycle_nodes (out (walk h lim node depth indent st))) x
         + count_list (queried (walk h lim node depth indent st)) x"
  "int (length indent) + 2 * depth = int k \<Longrightarrow>
   count_list (entered k (out st)) x + c
     = count_list (cycle_nodes (out st)) x + count_list (queried st) x \<Longrightarrow>
     count_list (entered k (out (walk_refs h lim refs depth indent st))) x + c
       = count_list (cycle_nodes (out (walk_refs h lim refs depth indent st))) x
         + count_list (queried (walk_refs h lim refs depth indent st)) x"
proof (induction h lim node depth indent st and h lim refs depth indent st
       rule: walk_walk_refs.induct)
  case (1 h lim node depth indent st)
  show ?case
  proof (cases rule: walk_cases [where depth=depth and node=node and st=st and h=h])
    case exhausted
    then show ?thesis using "1.prems" by simp
  next
    case repeat
    then show ?thesis using "1.prems"(3) by (simp add: walk_repeat)
  next
    case leaf
    then show ?thesis using "1.prems"(3) by (simp add: walk_leaf)
  next
    case expand
    then show ?thesis
      using "1.IH" "1.prems" by (simp add: walk_expand)
  qed
next
  case (2 h lim depth indent st)
  then show ?case by simp
next
  case (3 h lim ref rest depth indent st)
  show ?case
  proof (cases "entry_extras (modules h) (objs h ref)")
    case (Inl e)
    then show ?thesis using "3.prems" by (simp add: walk_refs_raise)
  next
    case (Inr ex)
    let ?e = "log_entry h indent ref ex st"
    let ?w = "walk h lim ref (depth - 1) (indent @ ''  '') ?e"
    have w: "count_list (entered k (out ?w)) x + c
               = count_list (cycle_nodes (out ?w)) x + count_list (queried ?w) x"
    proof (cases "1 \<le> depth")
      case True
      have a: "int (length (indent @ ''  '')) + 2 * (depth - 1) = int k"
        using "3.prems"(1) by simp
      have b: "0 \<le> depth - 1" using True by simp
      have "length indent + 2 \<le> k" using "3.prems"(1) True by linarith
      then have c: "count_list (entered k (out ?e)) x + c
                      = count_list (cycle_nodes (out ?e)) x + count_list (queried ?e) x
                        + (if ref = x then 1 else 0)"
        using "3.prems"(2) by simp
      from "3.IH"(1) [OF Inr a b c] show ?thesis .
    next
      case False
      then have "\<not> length indent + 2 \<le> k" using "3.prems"(1) by linarith
      then show ?thesis using False "3.prems"(2) by (simp add: walk_exhausted)
    qed
    show ?thesis
    proof (cases "raised ?w = None")
      case True
      then show ?thesis
        using "3.IH"(2) [OF Inr refl True "3.prems"(1) w]
        by (simp add: walk_refs_step [OF Inr True])
    next
      case False
      then show ?thesis using w by (simp add: walk_refs_stop [OF Inr False])
    qed
  qed
qed

text \<open>With no depth left below it, the loop only logs its entries.\<close>

lemma walk_refs_depth0:
  "raised st = None \<Longrightarrow> list_all (renders h) refs \<Longrightarrow>
   walk_refs h lim refs 0 indent st = st\<lparr>out := out st @ map (render_entry h indent) refs\<rparr>"
proof (induction refs arbitrary: st)
  case Nil
  then show ?case by simp
next
  case (Cons r rs)
  from Cons.prems have c: "renders h r" and cs: "list_all (renders h) rs" by simp_all
  from renders_extras [OF c]
  obtain ex where ex: "entry_extras (modules h) (objs h r) = Inr ex" ..
  have r: "raised (walk h lim r (0 - 1) (indent @ ''  '') (log_entry h indent r ex st)) = None"
    using Cons.prems(1) by (simp add: walk_exhausted)
  show ?case
    using Cons.IH [of "log_entry h indent r ex st"] Cons.prems(1) cs
    by (simp add: walk_refs_step [OF ex r] walk_exhausted render_entry_eq [OF ex] log_entry_def)
qed

section \<open>The referrer query\<close>

text \<open>When no referrer makes the classifier raise, the query is a filter.\<close>

lemma filter_refs_is_filter:
  "list_all (\<lambda>r. \<not> isl (is_console_noise (modules h) (objs h r))) rs \<Longrightarrow>
   filter_refs (modules h) (objs h) rs = Inr (filter (kept h) rs)"
  by (induction rs) (auto simp: kept_def clean_def split: sum.splits bool.splits)

lemma filter_refs_all_noise:
  "list_all (\<lambda>r. is_console_noise m (ob r) = Inr True) rs \<Longrightarrow> filter_refs m ob rs = Inr []"
  by (induction rs) auto

section \<open>The sample heaps, evaluated\<close>

lemmas sample_defs =
  plain_instance_def dict_of_def list_obj_def console_obj_def binaryview_obj_def all_mods_def
  mk_heap_def some_object_def boom_def

lemmas classifier_defs =
  is_console_noise_def is_tracebackish_def is_interactive_console_def is_completer_obj_def
  is_interpreter_thread_def is_own_container_def is_repl_namespace_def typename_def
  dict_get_def dict_has_def own_names_def repl_modules_def tool_keys_def has_tool_key_def
  sublist_code prefix_code suffix_to_prefix

lemma holder_clean: "is_console_noise all_mods (plain_instance ''app'' ''Holder'') = Inr False"
  by (simp add: sample_defs classifier_defs)

lemma node_obj_clean: "is_console_noise all_mods (plain_instance ''app'' ''Node'') = Inr False"
  by (simp add: sample_defs classifier_defs)

lemma view_clean: "is_console_noise all_mods binaryview_obj = Inr False"
  by (simp add: sample_defs classifier_defs)

lemma console_noise: "is_console_noise all_mods console_obj = Inr True"
  by (simp add: sample_defs classifier_defs)

lemma userscript_dict:
  "is_console_noise all_mods
     (dict_of [(''__name__'', PStr ''userscript''), (''inspect_bv'', some_object),
               (''bv'', some_object)]) = Inr False"
  "has_tool_key
     (dict_of [(''__name__'', PStr ''userscript''), (''inspect_bv'', some_object),
               (''bv'', some_object)])"
  by (simp_all add: sample_defs classifier_defs)

lemma cache_dict:
  "is_console_noise all_mods (dict_of [(''__name__'', PStr ''cache''), (''bv'', some_object)])
     = Inr False"
  "\<not> has_tool_key (dict_of [(''__name__'', PStr ''cache''), (''bv'', some_object)])"
  by (simp_all add: sample_defs classifier_defs)

lemma boom_dict:
  "is_console_noise all_mods (dict_of [(''__name__'', boom), (''bv'', some_object)]) = Inr False"
  "\<not> has_tool_key (dict_of [(''__name__'', boom), (''bv'', some_object)])"
  "entry_extras all_mods (dict_of [(''__name__'', boom), (''bv'', some_object)])
     = Inl OtherException"
  by (simp_all add: sample_defs classifier_defs entry_extras_def hint_of_def)

lemma plain_extras [simp]:
  "entry_extras all_mods (plain_instance md nm) = Inr []"
  "entry_extras all_mods binaryview_obj = Inr []"
  "entry_extras all_mods (list_obj r) = Inr [ExLen 1]"
  by (simp_all add: sample_defs entry_extras_def)

lemma plain_not_dict: "\<not> is_dict (plain_instance md nm)" "\<not> is_dict binaryview_obj"
  by (simp_all add: sample_defs)

lemma dict_of_is_dict: "is_dict (dict_of items)"
  by (simp add: dict_of_def)

lemma unreprable_list_raises:
  "is_console_noise all_mods (list_obj (Inl OtherException)) = Inl OtherException"
  by (simp add: sample_defs classifier_defs)

lemma fan_refs: "refs_of fan_heap 0 = [1, 2, 3]" "refs_of fan_heap (Suc n) = []"
  by (simp_all add: refs_of_def iter_referrers_filtered_def fan_heap_def mk_heap_def holder_clean
                    plain_not_dict)

lemma ring_refs: "refs_of ring_heap 0 = [1]" "refs_of ring_heap (Suc 0) = [0]"
  by (simp_all add: refs_of_def iter_referrers_filtered_def ring_heap_def mk_heap_def
                    node_obj_clean plain_not_dict)

lemma hint_refs:
  "refs_of hint_heap 0 = [2, 1, 3]" "refs_of hint_heap (Suc 0) = []"
  "refs_of hint_heap 2 = []" "refs_of hint_heap 3 = []"
  by (simp_all add: refs_of_def iter_referrers_filtered_def hint_heap_def mk_heap_def
                    holder_clean plain_not_dict boom_dict dict_of_is_dict)

lemma broken_refs:
  "iter_referrers_filtered broken_heap (Suc 0) = Inl OtherException"
  "refs_of broken_heap 0 = [1, 2]" "refs_of broken_heap (Suc 0) = []" "refs_of broken_heap 2 = []"
  by (simp_all add: refs_of_def iter_referrers_filtered_def broken_heap_def mk_heap_def
                    holder_clean plain_not_dict unreprable_list_raises)

lemma fan_renders: "renders fan_heap n"
  by (simp add: renders_def fan_heap_def mk_heap_def)

lemma broken_renders: "renders broken_heap n"
  by (simp add: renders_def broken_heap_def mk_heap_def)

lemma hint_extras:
  "entry_extras (modules hint_heap) (objs hint_heap 2) = Inr []"
  "entry_extras (modules hint_heap) (objs hint_heap (Suc 0)) = Inl OtherException"
  by (simp_all add: hint_heap_def mk_heap_def boom_dict)

section \<open>The claims\<close>

subsection \<open>Depth zero\<close>

lemma print_referrers_depth0:
  assumes "list_all (renders h) (take (shown lim (refs_of h root)) (refs_of h root))"
  shows "print_referrers h root 0 lim =
     \<lparr>seen_ids = {root},
      out = (if refs_of h root = [] then [LeafLine []]
             else truncation_notice lim [] (refs_of h root)
                  @ map (render_entry h []) (take (shown lim (refs_of h root)) (refs_of h root))),
      queried = [root], raised = None\<rparr>"
proof (cases "refs_of h root = []")
  case True
  then show ?thesis
    by (simp add: print_referrers_def fresh_def walk_leaf)
next
  case False
  then show ?thesis
    using assms by (simp add: print_referrers_def fresh_def walk_expand walk_refs_depth0)
qed

text \<open>
  C1, as stated: with \<open>max_depth = 0\<close> the walker renders the root alone, with zero
  children, however many referrers the root has. The code does otherwise: on a view held
  by three plain objects, \<open>max_depth = 0\<close> logs one entry line for each of the three
  holders.
\<close>

theorem depth0_logs_the_holders:
  "out (print_referrers fan_heap 0 0 (Some 20))
     = [render_entry fan_heap [] 1, render_entry fan_heap [] 2, render_entry fan_heap [] 3]
   \<and> length (filter is_entry (out (print_referrers fan_heap 0 0 (Some 20)))) = 3"
  by (simp add: print_referrers_depth0 fan_refs fan_renders list_all_iff truncation_notice_def
                shown_def render_entry_def)

text \<open>
  C1, amended: with \<open>max_depth = 0\<close> the root is the only object whose referrers are
  enumerated. If it has no filtered referrers one leaf line is logged; otherwise the
  truncation notice (when the limit is exceeded) and one entry line for each of the first
  \<open>limit\<close> filtered referrers are logged, and nothing beneath those entries. This is for
  a root whose shown referrers all render; what an entry that fails to render does to the
  traversal is the subject of C3 and C10.
\<close>

theorem depth0_expands_root_only:
  assumes "list_all (renders h) (take (shown lim (refs_of h root)) (refs_of h root))"
  shows "print_referrers h root 0 lim =
     \<lparr>seen_ids = {root},
      out = (if refs_of h root = [] then [LeafLine []]
             else truncation_notice lim [] (refs_of h root)
                  @ map (render_entry h []) (take (shown lim (refs_of h root)) (refs_of h root))),
      queried = [root], raised = None\<rparr>"
  using assms by (rule print_referrers_depth0)

theorem depth0_expands_root_only_witness:
  "list_all (renders fan_heap) (take (shown (Some 2) (refs_of fan_heap 0)) (refs_of fan_heap 0))
   \<and> print_referrers fan_heap 0 0 (Some 2)
       = \<lparr>seen_ids = {0},
          out = [TruncLine [] 3 2, render_entry fan_heap [] 1, render_entry fan_heap [] 2],
          queried = [0], raised = None\<rparr>"
  using depth0_expands_root_only [of fan_heap "Some 2" 0]
  by (simp add: fan_refs fan_renders truncation_notice_def shown_def)

subsection \<open>Cycles\<close>

lemma ring_facts:
  "entry_extras (modules ring_heap) (objs ring_heap n) = Inr []"
  "type_name (objs ring_heap n) = ''Node''"
  by (simp_all add: ring_heap_def mk_heap_def) (simp add: plain_instance_def)

lemma ring_depth1:
  "print_referrers ring_heap 0 1 (Some 20) =
     \<lparr>seen_ids = {0, 1},
      out = [render_entry ring_heap [] 1, render_entry ring_heap ''  '' 0],
      queried = [0, 1], raised = None\<rparr>"
  by (simp add: print_referrers_def fresh_def walk.simps walk_refs.simps(2) ring_refs ring_facts
                truncation_notice_def shown_def log_entry_def render_entry_def insert_commute)

lemma ring_depth3:
  "print_referrers ring_heap 0 3 (Some 20) =
     \<lparr>seen_ids = {0, 1},
      out = [render_entry ring_heap [] 1, render_entry ring_heap ''  '' 0,
             CycleLine ''    '' ''Node'' 0],
      queried = [0, 1], raised = None\<rparr>"
  by (simp add: print_referrers_def fresh_def walk.simps walk_refs.simps(2) ring_refs ring_facts
                truncation_notice_def shown_def log_entry_def render_entry_def insert_commute)

text \<open>
  C2, as stated: on a repeat encounter the node is rendered as a cycle marker. The code
  logs the marker only when depth is left for the node met again. With A (0) and B (1)
  referring to each other and \<open>max_depth = 1\<close>, the root A is met again as the referrer
  of B on the last level: it is logged as an ordinary entry line, and the output has no
  cycle marker.
\<close>

theorem last_level_repeat_is_plain_entry:
  "out (print_referrers ring_heap 0 1 (Some 20))
     = [render_entry ring_heap [] 1, render_entry ring_heap ''  '' 0]
   \<and> cycle_nodes (out (print_referrers ring_heap 0 1 (Some 20))) = []"
  by (simp add: ring_depth1 render_entry_def)

text \<open>
  C2, amended. The walker terminates on every heap (\<open>walk\<close> is a total function: its
  recursion is bounded by the depth and the length of the referrer list, cycle or not).
  In one traversal no object has its referrers enumerated twice. The objects enumerated
  are the root and the objects of the entry lines above the last level, which are the
  objects \<open>walk\<close> is entered on with depth left. And for every object \<open>x\<close>, each time
  \<open>x\<close> is entered it is either enumerated or a cycle marker naming \<open>x\<close> is logged: an
  object entered \<open>n\<close> times is enumerated once and gets \<open>n - 1\<close> markers. An object met
  again on the last level gets an entry line and no marker.
\<close>

theorem each_identity_enumerated_once:
  assumes "0 \<le> max_depth"
  shows "distinct (queried (print_referrers h root max_depth lim))
       \<and> set (queried (print_referrers h root max_depth lim))
           = insert root (set (entered (2 * nat max_depth)
                                  (out (print_referrers h root max_depth lim))))
       \<and> count_list (cycle_nodes (out (print_referrers h root max_depth lim))) x
           + count_list (queried (print_referrers h root max_depth lim)) x
           = count_list (root # entered (2 * nat max_depth)
                                  (out (print_referrers h root max_depth lim))) x"
proof -
  let ?r = "print_referrers h root max_depth lim"
  let ?k = "2 * nat max_depth"
  have k: "int (length ([] :: string)) + 2 * max_depth = int ?k"
    using assms by simp
  have "queried_once fresh" by (simp add: queried_once_def fresh_def)
  then have "queried_once ?r"
    unfolding print_referrers_def by (rule walk_queried_once(1))
  then have q: "distinct (queried ?r)" "set (queried ?r) = seen_ids ?r"
    by (simp_all add: queried_once_def)
  have "seen_ids ?r = {root} \<union> set (entered ?k (out ?r))"
    unfolding print_referrers_def
    by (rule walk_entered(1) [OF k assms]) (simp add: fresh_def)
  then have e: "set (queried ?r) = insert root (set (entered ?k (out ?r)))"
    using q(2) by simp
  have "count_list (entered ?k (out ?r)) x + (if root = x then 1 else 0)
          = count_list (cycle_nodes (out ?r)) x + count_list (queried ?r) x"
    unfolding print_referrers_def
    by (rule walk_balance(1) [OF k assms]) (simp add: fresh_def)
  then have b: "count_list (cycle_nodes (out ?r)) x + count_list (queried ?r) x
                  = count_list (root # entered ?k (out ?r)) x"
    by (cases "root = x") simp_all
  from q(1) e b show ?thesis by blast
qed

theorem each_identity_enumerated_once_witness:
  "(0::int) \<le> 3
   \<and> queried (print_referrers ring_heap 0 3 (Some 20)) = [0, 1]
   \<and> entered (2 * nat 3) (out (print_referrers ring_heap 0 3 (Some 20))) = [1, 0]
   \<and> cycle_nodes (out (print_referrers ring_heap 0 3 (Some 20))) = [0]
   \<and> distinct (queried (print_referrers ring_heap 0 3 (Some 20)))
   \<and> set (queried (print_referrers ring_heap 0 3 (Some 20)))
       = insert 0 (set (entered (2 * nat 3) (out (print_referrers ring_heap 0 3 (Some 20)))))
   \<and> count_list (cycle_nodes (out (print_referrers ring_heap 0 3 (Some 20)))) 0
       + count_list (queried (print_referrers ring_heap 0 3 (Some 20))) 0
       = count_list (0 # entered (2 * nat 3) (out (print_referrers ring_heap 0 3 (Some 20)))) 0"
  using each_identity_enumerated_once [of 3 ring_heap 0 "Some 20" 0]
  by (simp add: ring_depth3 render_entry_def)

subsection \<open>The fan-out limit\<close>

lemma hint_limited:
  "print_referrers hint_heap 0 1 (Some 2) =
     \<lparr>seen_ids = {0, 2},
      out = [TruncLine [] 3 2, render_entry hint_heap [] 2, LeafLine ''  ''],
      queried = [0, 2], raised = Some OtherException\<rparr>"
  by (simp add: print_referrers_def fresh_def walk.simps walk_refs.simps(2) hint_refs hint_extras
                truncation_notice_def shown_def log_entry_def render_entry_def insert_commute)

text \<open>
  C3: a node with \<open>per_node_limit + k\<close> filtered referrers shows exactly \<open>per_node_limit\<close>
  children under the notice with the true total. The code breaks this where an entry
  fails to render. The view of \<open>hint_heap\<close> has three filtered referrers, in the order
  2, 1, 3, and the limit is 2: the notice announces the first two of three, the entry of
  2 is logged with its leaf, then \<open>repr\<close> of the \<open>__name__\<close> entry of the dictionary 1
  raises inside the f-string (line 222), with no handler, and the exception leaves
  \<open>print_referrers\<close>. One child is shown, not two.
\<close>

theorem limited_node_loses_child:
  "length (refs_of hint_heap 0) = 2 + 1
   \<and> out (print_referrers hint_heap 0 1 (Some 2))
       = [TruncLine [] 3 2, render_entry hint_heap [] 2, LeafLine ''  '']
   \<and> child_lines [] (out (print_referrers hint_heap 0 1 (Some 2)))
       = [render_entry hint_heap [] 2]
   \<and> raised (print_referrers hint_heap 0 1 (Some 2)) = Some OtherException"
  by (simp add: hint_limited hint_refs child_lines_def render_entry_def)

subsection \<open>The classifier\<close>

text \<open>
  C4: the classifier is total and never raises. The code breaks this: \<open>repr(ref)\<close> of a
  list, tuple, set or frozenset is taken with no handler, so for a list holding an object
  whose \<open>__repr__\<close> raises, the exception leaves \<open>_is_console_noise\<close>.
\<close>

theorem classifier_raises_on_unreprable_list:
  "is_console_noise all_mods (list_obj (Inl OtherException)) = Inl OtherException"
  by (simp add: sample_defs classifier_defs)

subsection \<open>Noise is never shown\<close>

text \<open>
  C5: every node shown in the output of a traversal (the referrer of an entry line, the
  node of a cycle marker) is an object the classifier answered \<open>False\<close> for; and a root
  whose referrers are all noise is logged as the single leaf line.
\<close>

theorem noise_never_rendered:
  "list_all (node_clean h) (out (print_referrers h root max_depth lim))
   \<and> (0 \<le> max_depth \<and> get_referrers h root = Inr rs
        \<and> list_all (\<lambda>r. is_console_noise (modules h) (objs h r) = Inr True) rs \<longrightarrow>
        out (print_referrers h root max_depth lim) = [LeafLine []])"
proof -
  have "list_all (node_clean h) (out (print_referrers h root max_depth lim))"
    unfolding print_referrers_def by (rule walk_nodes_clean(1)) (simp_all add: fresh_def)
  moreover have "out (print_referrers h root max_depth lim) = [LeafLine []]"
    if "0 \<le> max_depth" "get_referrers h root = Inr rs"
      "list_all (\<lambda>r. is_console_noise (modules h) (objs h r) = Inr True) rs"
  proof -
    have "refs_of h root = []"
      using that(2,3) by (simp add: refs_of_def iter_referrers_filtered_def filter_refs_all_noise)
    then show ?thesis
      using that(1) by (simp add: print_referrers_def fresh_def walk_leaf)
  qed
  ultimately show ?thesis by blast
qed

lemma console_heap_facts:
  "get_referrers console_heap 0 = Inr [1]"
  "is_console_noise (modules console_heap) (objs console_heap (Suc 0)) = Inr True"
  by (simp_all add: console_heap_def mk_heap_def console_noise)

theorem noise_never_rendered_witness:
  "list_all (node_clean console_heap) (out (print_referrers console_heap 0 3 (Some 20)))
   \<and> (0::int) \<le> 3 \<and> get_referrers console_heap 0 = Inr [1]
   \<and> list_all (\<lambda>r. is_console_noise (modules console_heap) (objs console_heap r) = Inr True) [1]
   \<and> out (print_referrers console_heap 0 3 (Some 20)) = [LeafLine []]"
  using noise_never_rendered [of console_heap 0 3 "Some 20" "[1]"]
  by (simp add: console_heap_facts node_clean_def)

subsection \<open>A failed enumeration\<close>

lemma broken_traversal:
  "print_referrers broken_heap 0 3 (Some 20) =
     \<lparr>seen_ids = {0, 1, 2},
      out = [render_entry broken_heap [] 1, LeafLine ''  '',
             render_entry broken_heap [] 2, LeafLine ''  ''],
      queried = [0, 1, 2], raised = None\<rparr>"
proof -
  have ex: "entry_extras (modules broken_heap) (objs broken_heap n) = Inr []" if "n \<noteq> 3" for n
    using that by (simp add: broken_heap_def mk_heap_def)
  show ?thesis
    by (simp add: print_referrers_def fresh_def walk.simps walk_refs.simps(2) broken_refs ex
                  truncation_notice_def shown_def log_entry_def render_entry_def insert_commute)
qed

text \<open>
  C6: if enumerating the referrers of a node raises, \<open>walk\<close> catches it there: the node is
  marked and logged as a leaf and nothing else changes, in particular no exception is
  recorded; the loop that reached the node goes on and logs the entry of the node's next
  sibling right after the leaf line; and where every object renders, a traversal ends
  with no exception whatever the enumerations did.
\<close>

theorem failed_enumeration_is_leaf:
  assumes "iter_referrers_filtered h node = Inl e" "node \<notin> seen_ids st"
  shows "(0 \<le> depth \<longrightarrow>
            walk h lim node depth indent st
              = st\<lparr>seen_ids := insert node (seen_ids st), queried := queried st @ [node],
                   out := out st @ [LeafLine indent]\<rparr>)
       \<and> (1 \<le> depth \<and> raised st = None \<and> renders h node \<and> renders h r \<longrightarrow>
            prefix (out st @ [render_entry h indent node, LeafLine (indent @ ''  ''),
                              render_entry h indent r])
                   (out (walk_refs h lim (node # r # rest) depth indent st)))
       \<and> ((\<forall>x. renders h x) \<longrightarrow> raised (print_referrers h root max_depth lim) = None)"
proof -
  from assms(1) have r: "refs_of h node = []" by (simp add: refs_of_def)
  have a: "walk h lim node depth indent st
             = st\<lparr>seen_ids := insert node (seen_ids st), queried := queried st @ [node],
                  out := out st @ [LeafLine indent]\<rparr>" if "0 \<le> depth"
    using that assms(2) r by (simp add: walk_leaf)
  have b: "prefix (out st @ [render_entry h indent node, LeafLine (indent @ ''  ''),
                             render_entry h indent r])
                  (out (walk_refs h lim (node # r # rest) depth indent st))"
    if d: "1 \<le> depth" and u: "raised st = None" and rn: "renders h node" and rr: "renders h r"
  proof -
    from renders_extras [OF rn] obtain ex
      where ex: "entry_extras (modules h) (objs h node) = Inr ex" ..
    from renders_extras [OF rr] obtain ex'
      where ex': "entry_extras (modules h) (objs h r) = Inr ex'" ..
    let ?w = "walk h lim node (depth - 1) (indent @ ''  '') (log_entry h indent node ex st)"
    let ?e = "log_entry h indent r ex' ?w"
    let ?v = "walk h lim r (depth - 1) (indent @ ''  '') ?e"
    have w: "?w = st\<lparr>seen_ids := insert node (seen_ids st), queried := queried st @ [node],
                      out := out st @ [render_entry h indent node, LeafLine (indent @ ''  '')]\<rparr>"
      using d assms(2) r by (simp add: walk_leaf render_entry_eq [OF ex] log_entry_def)
    have wu: "raised ?w = None" using u by (simp add: w)
    have s1: "walk_refs h lim (node # r # rest) depth indent st
                = walk_refs h lim (r # rest) depth indent ?w"
      by (rule walk_refs_step [OF ex wu])
    have oe: "out ?e = out st @ [render_entry h indent node, LeafLine (indent @ ''  ''),
                                 render_entry h indent r]"
      by (simp add: w render_entry_eq [OF ex'])
    have pv: "prefix (out ?e) (out ?v)" by (rule walk_out_prefix(1))
    have "prefix (out ?e) (out (walk_refs h lim (r # rest) depth indent ?w))"
    proof (cases "raised ?v = None")
      case True
      have "prefix (out ?v) (out (walk_refs h lim rest depth indent ?v))"
        by (rule walk_out_prefix(2))
      with pv have "prefix (out ?e) (out (walk_refs h lim rest depth indent ?v))"
        by (rule prefix_order.trans)
      then show ?thesis by (simp only: walk_refs_step [OF ex' True])
    next
      case False
      show ?thesis using pv by (simp only: walk_refs_stop [OF ex' False])
    qed
    then show ?thesis by (simp only: s1 oe)
  qed
  have c: "raised (print_referrers h root max_depth lim) = None" if "\<forall>x. renders h x"
    unfolding print_referrers_def
    by (rule walk_keeps_unraised(1) [OF that]) (simp add: fresh_def)
  from a b c show ?thesis by blast
qed

theorem failed_enumeration_is_leaf_witness:
  "iter_referrers_filtered broken_heap 1 = Inl OtherException \<and> 1 \<notin> seen_ids fresh
   \<and> (0::int) \<le> 2
   \<and> walk broken_heap (Some 20) 1 2 [] fresh
       = \<lparr>seen_ids = {1}, out = [LeafLine []], queried = [1], raised = None\<rparr>
   \<and> (1::int) \<le> 3 \<and> raised fresh = None \<and> renders broken_heap 1 \<and> renders broken_heap 2
   \<and> prefix [render_entry broken_heap [] 1, LeafLine ''  '', render_entry broken_heap [] 2]
            (out (walk_refs broken_heap (Some 20) [1, 2] 3 [] fresh))
   \<and> (\<forall>x. renders broken_heap x)
   \<and> raised (print_referrers broken_heap 0 3 (Some 20)) = None
   \<and> out (print_referrers broken_heap 0 3 (Some 20))
       = [render_entry broken_heap [] 1, LeafLine ''  '',
          render_entry broken_heap [] 2, LeafLine ''  '']"
proof -
  have a: "iter_referrers_filtered broken_heap 1 = Inl OtherException"
    using broken_refs(1) by simp
  have b: "1 \<notin> seen_ids fresh" by (simp add: fresh_def)
  show ?thesis
    using failed_enumeration_is_leaf [where h=broken_heap and node=1 and st=fresh and depth=2
            and lim="Some 20" and indent="[]" and r=2 and rest="[]" and root=0
            and max_depth=3, OF a b]
      failed_enumeration_is_leaf [where h=broken_heap and node=1 and st=fresh and depth=3
            and lim="Some 20" and indent="[]" and r=2 and rest="[]" and root=0
            and max_depth=3, OF a b] a
    by (simp add: fresh_def broken_renders broken_traversal)
qed

subsection \<open>The secondary filter of the referrer query\<close>

text \<open>
  C7, as stated: the query drops a non-noise mapping exactly when it is the local
  bindings of the calling frame. The code tests something else, whether the dictionary
  has one of the keys \<open>inspect_bv\<close>, \<open>print_referrers\<close>, \<open>_iter_referrers_filtered\<close>: the
  globals of a user module that imported \<open>inspect_bv\<close> hold the view, are not noise and
  are nobody's local bindings, and the query drops them.
\<close>

theorem tool_key_namespace_dropped:
  "get_referrers key_heap 0 = Inr [1, 2]
   \<and> spec_query_referrers None key_heap [1, 2] = [1, 2]
   \<and> iter_referrers_filtered key_heap 0 = Inr [2]"
  by (simp add: spec_query_referrers_def iter_referrers_filtered_def clean_def key_heap_def
                mk_heap_def userscript_dict cache_dict dict_of_is_dict)

text \<open>
  C7, amended: when the classifier raises for none of the referrers the runtime
  reports, the query yields, in the runtime's order, the referrers that the classifier
  answers \<open>False\<close> for, except the dictionaries that have one of the keys \<open>inspect_bv\<close>,
  \<open>print_referrers\<close>, \<open>_iter_referrers_filtered\<close>; nothing else is dropped.
\<close>

theorem referrer_query_is_filter:
  assumes "get_referrers h obj = Inr rs"
    and "list_all (\<lambda>r. \<not> isl (is_console_noise (modules h) (objs h r))) rs"
  shows "iter_referrers_filtered h obj
           = Inr (filter (\<lambda>r. clean h r
                               \<and> (if is_dict (objs h r) then \<not> has_tool_key (objs h r)
                                    else True)) rs)"
proof -
  have "kept h = (\<lambda>r. clean h r \<and> (if is_dict (objs h r) then \<not> has_tool_key (objs h r)
                                       else True))"
    by (rule ext) (simp add: kept_def)
  then show ?thesis
    using assms filter_refs_is_filter [of h rs] by (simp add: iter_referrers_filtered_def)
qed

lemma key_heap_facts:
  "get_referrers key_heap 0 = Inr [1, 2]"
  "is_console_noise (modules key_heap) (objs key_heap (Suc 0)) = Inr False"
  "is_console_noise (modules key_heap) (objs key_heap 2) = Inr False"
  "is_dict (objs key_heap (Suc 0))" "has_tool_key (objs key_heap (Suc 0))"
  "is_dict (objs key_heap 2)" "\<not> has_tool_key (objs key_heap 2)"
  by (simp_all add: key_heap_def mk_heap_def userscript_dict cache_dict dict_of_is_dict)

theorem referrer_query_is_filter_witness:
  "get_referrers key_heap 0 = Inr [1, 2]
   \<and> list_all (\<lambda>r. \<not> isl (is_console_noise (modules key_heap) (objs key_heap r))) [1, 2]
   \<and> iter_referrers_filtered key_heap 0 = Inr [2]"
  using referrer_query_is_filter [of key_heap 0 "[1, 2]"]
  by (simp add: key_heap_facts clean_def)

subsection \<open>The registry\<close>

text \<open>Where no \<open>isinstance\<close> test raises, the scan is a filter of the pool.\<close>

lemma scan_views_is_filter:
  "list_all (\<lambda>x. \<not> isl (is_binaryview (ob x))) xs \<Longrightarrow>
   scan_views ob xs = Inr (filter (\<lambda>x. is_binaryview (ob x) = Inr True) xs)"
  by (induction xs) (auto split: sum.splits)

lemma pool_scan: "live_bvs pool_heap = (gc_collect pool_heap, Inr [0, 2])"
  by (simp add: live_bvs_def gc_collect_def pool_heap_def sample_defs)

text \<open>
  C8: \<open>live_bvs\<close> returns the \<open>BinaryView\<close> instances of the pool, each reachable one
  once. The code breaks this where \<open>isinstance\<close> raises, which it does for a
  \<open>weakref.proxy\<close> whose referent is gone: the test is made on every object of the pool
  with no handler, so with such a proxy among two reachable views the call raises
  \<open>ReferenceError\<close> and returns no list at all.
\<close>

theorem live_bvs_raises_on_dead_proxy:
  "gc_objects (fst (live_bvs proxy_heap)) = [0, 1, 2]
   \<and> is_binaryview (objs proxy_heap 0) = Inr True
   \<and> is_binaryview (objs proxy_heap 2) = Inr True
   \<and> snd (live_bvs proxy_heap) = Inl ReferenceError"
  by (simp add: live_bvs_def gc_collect_def proxy_heap_def dead_proxy_def sample_defs)

subsection \<open>Deleting a binding\<close>

lemma map_of_dict_remove: "map_of (dict_remove k d) k = None"
  by (induction d) (auto simp: dict_remove_def)

lemma dict_has_removed [simp]: "\<not> dict_has (dict_remove k d) k"
  by (simp add: dict_has_def map_of_dict_remove)








subsection \<open>No limit\<close>

lemma hint_unlimited:
  "print_referrers hint_heap 0 1 None =
     \<lparr>seen_ids = {0, 2},
      out = [render_entry hint_heap [] 2, LeafLine ''  ''],
      queried = [0, 2], raised = Some OtherException\<rparr>"
  by (simp add: print_referrers_def fresh_def walk.simps walk_refs.simps(2) hint_refs hint_extras
                truncation_notice_def shown_def log_entry_def render_entry_def insert_commute)

text \<open>
  C10: with \<open>per_node_limit = None\<close> every filtered referrer of a node is rendered and
  recursed into. The code breaks this in the same way as for C3: of the three filtered
  referrers 2, 1, 3 of the view of \<open>hint_heap\<close>, 2 is rendered and visited, rendering 1
  raises, and 3 is neither rendered nor visited.
\<close>

theorem unlimited_node_loses_children:
  "refs_of hint_heap 0 = [2, 1, 3]
   \<and> out (print_referrers hint_heap 0 1 None) = [render_entry hint_heap [] 2, LeafLine ''  '']
   \<and> 3 \<notin> seen_ids (print_referrers hint_heap 0 1 None)
   \<and> raised (print_referrers hint_heap 0 1 None) = Some OtherException"
  by (simp add: hint_unlimited hint_refs)

end
